theory Spec2Isabelle
  imports Main
begin


section \<open>Data model (api/models.py)\<close>

text \<open>
  \<^verbatim>\<open>UserPublic\<close>: the public part of a user. The field \<^verbatim>\<open>id\<close> is called
  \<open>user_id\<close> here, since \<open>id\<close> is the identity function of HOL.
\<close>

record UserPublic =
  username :: string
  user_id :: int

text \<open>
  One entry of \<^verbatim>\<open>GameRoom.moves\<close>: the dictionary
  \<^verbatim>\<open>{"player": username, "row": row, "col": col}\<close> that \<^verbatim>\<open>make_move\<close> appends.
\<close>

record Move =
  move_player :: string
  move_row :: int
  move_col :: int

text \<open>
  \<^verbatim>\<open>GameRoom\<close>. The board is a list of rows of strings, as in the source: nothing in the
  type makes it 3x3 or restricts a cell to \<^verbatim>\<open>"X"\<close>, \<^verbatim>\<open>"O"\<close> or \<^verbatim>\<open>""\<close>.
  \<^verbatim>\<open>next_turn\<close> is declared \<^verbatim>\<open>str\<close>, not \<^verbatim>\<open>Optional[str]\<close>.
\<close>

record GameRoom =
  room_id :: string
  players :: "UserPublic list"
  board :: "string list list"
  next_turn :: string
  finished :: bool
  winner :: "string option"
  moves :: "Move list"

text \<open>\<^verbatim>\<open>GameState\<close>: the snapshot that \<^verbatim>\<open>make_move\<close> returns.\<close>

record GameState =
  state_board :: "string list list"
  state_next_turn :: "string option"
  state_winner :: "string option"
  state_finished :: bool

text \<open>
  The exceptions the modelled code can raise: \<^verbatim>\<open>ValueError\<close> with its message, and the
  \<^verbatim>\<open>IndexError\<close> of a list subscript out of range.
\<close>

datatype error = ValueError string | IndexError

abbreviation GameFinished :: error where
  "GameFinished \<equiv> ValueError ''Game already finished.''"

abbreviation OutOfTurn :: error where
  "OutOfTurn \<equiv> ValueError ''Not your turn.''"

abbreviation OutOfBounds :: error where
  "OutOfBounds \<equiv> ValueError ''Invalid board position.''"

abbreviation CellOccupied :: error where
  "CellOccupied \<equiv> ValueError ''Cell already occupied.''"


section \<open>Rule engine (api/game\_logic.py)\<close>

subsection \<open>check\_winner\<close>

text \<open>
  The eight lines in the order in which \<^verbatim>\<open>check_winner\<close> collects them: for
  \<open>i = 0, 1, 2\<close> the row \<open>i\<close> (the row object itself, whatever its length) and then
  the column \<open>i\<close>; then the main diagonal and the anti-diagonal.
\<close>

definition board_lines :: "string list list \<Rightarrow> string list list" where
  "board_lines b =
     concat (map (\<lambda>i. [b ! i, [b ! 0 ! i, b ! 1 ! i, b ! 2 ! i]]) [0..<3])
     @ [[b ! 0 ! 0, b ! 1 ! 1, b ! 2 ! 2], [b ! 0 ! 2, b ! 1 ! 1, b ! 2 ! 0]]"

text \<open>
  Collecting the lines subscripts \<^verbatim>\<open>board[i]\<close> and \<^verbatim>\<open>board[r][i]\<close> for
  \<open>r, i < 3\<close>; Python raises \<^verbatim>\<open>IndexError\<close> unless the board has at least three rows
  and each of the first three rows has at least three cells.
\<close>

definition subscripts_ok :: "string list list \<Rightarrow> bool" where
  "subscripts_ok b \<longleftrightarrow>
     3 \<le> length b \<and> 3 \<le> length (b ! 0) \<and> 3 \<le> length (b ! 1) \<and> 3 \<le> length (b ! 2)"

text \<open>The test of the scan: \<^verbatim>\<open>l[0] and l.count(l[0]) == 3\<close>.\<close>

definition line_wins :: "string list \<Rightarrow> bool" where
  "line_wins l \<longleftrightarrow> l ! 0 \<noteq> '''' \<and> count_list l (l ! 0) = 3"

text \<open>
  \<^verbatim>\<open>check_winner\<close> returns the pair \<^verbatim>\<open>(winner_symbol, finished)\<close>: the first cell of
  the first line that passes the test, or a draw when every cell of the board is a
  non-empty string, or \<^verbatim>\<open>(None, False)\<close>.
\<close>

definition check_winner :: "string list list \<Rightarrow> error + (string option \<times> bool)" where
  "check_winner b =
     (if \<not> subscripts_ok b then Inl IndexError
      else case find line_wins (board_lines b) of
             Some l \<Rightarrow> Inr (Some (l ! 0), True)
           | None \<Rightarrow>
               if list_all (\<lambda>cell. cell \<noteq> '''') (concat b) then Inr (None, True)
               else Inr (None, False))"

subsection \<open>make\_move\<close>

text \<open>
  \<^verbatim>\<open>make_move\<close> mutates the room it is given and either returns a \<^verbatim>\<open>GameState\<close> or
  raises. The model returns both the outcome and the room as the call leaves it, so that
  what a raising call has or has not mutated is part of the result. The two subscripts
  that can raise \<^verbatim>\<open>IndexError\<close> before the board is written (\<^verbatim>\<open>game.board[row][col]\<close>
  and \<^verbatim>\<open>game.players[0]\<close>) are checked where the source evaluates them. The local
  variable \<^verbatim>\<open>next_turn\<close> of the source (the list of the other user names, or \<^verbatim>\<open>None\<close>
  in the finished branch) is \<open>others\<close> here; the finished branch assigns nothing to
  \<^verbatim>\<open>game.next_turn\<close>. The rows of the board are taken to be distinct list objects, as
  \<^verbatim>\<open>create_game\<close> builds them.
\<close>

definition make_move ::
  "GameRoom \<Rightarrow> string \<Rightarrow> int \<Rightarrow> int \<Rightarrow> (error + GameState) \<times> GameRoom" where
  "make_move game uname r c =
     (if finished game then (Inl GameFinished, game)
      else if uname \<noteq> next_turn game then (Inl OutOfTurn, game)
      else if \<not> (0 \<le> r \<and> r < 3 \<and> 0 \<le> c \<and> c < 3) then (Inl OutOfBounds, game)
      else if \<not> (nat r < length (board game) \<and> nat c < length (board game ! nat r))
        then (Inl IndexError, game)
      else if board game ! nat r ! nat c \<noteq> '''' then (Inl CellOccupied, game)
      else if players game = [] then (Inl IndexError, game)
      else
        (let symbol = (if uname = username (players game ! 0) then ''X'' else ''O'');
             game1 = game\<lparr>
               board := (board game)[nat r := (board game ! nat r)[nat c := symbol]],
               moves := moves game
                 @ [\<lparr>move_player = uname, move_row = r, move_col = c\<rparr>]\<rparr>
         in case check_winner (board game1) of
              Inl e \<Rightarrow> (Inl e, game1)
            | Inr res \<Rightarrow>
               (let win = fst res;
                    is_finished = snd res;
                    game2 =
                      (if is_finished then game1\<lparr>finished := True, winner := win\<rparr>
                       else
                         (let usernames = map username (players game1);
                              others = filter (\<lambda>u. u \<noteq> uname) usernames
                          in game1\<lparr>
                               next_turn := (if others \<noteq> [] then others ! 0 else uname),
                               winner := None\<rparr>));
                    game3 =
                      (if is_finished then game2\<lparr>finished := True, winner := win\<rparr>
                       else game2)
                in (Inr \<lparr>state_board = board game3,
                         state_next_turn =
                           (if \<not> is_finished then Some (next_turn game3) else None),
                         state_winner = win,
                         state_finished = is_finished\<rparr>,
                    game3))))"


section \<open>Room registry (api/store.py)\<close>

text \<open>
  Of \<^verbatim>\<open>InMemoryStore\<close> the rooms only: the dictionary \<^verbatim>\<open>games\<close> from room identifier
  to room. Users, scores and the lock play no part in the room operations below.
\<close>

record Store =
  games :: "string \<rightharpoonup> GameRoom"

text \<open>
  \<^verbatim>\<open>create_game\<close>. The room identifier is \<^verbatim>\<open>secrets.token_hex(4)\<close> in the source, a
  random draw; it is a parameter here. A draw that repeats an identifier overwrites the
  room stored under it, as the dictionary assignment does.
\<close>

definition create_game :: "Store \<Rightarrow> string \<Rightarrow> UserPublic \<Rightarrow> GameRoom \<times> Store" where
  "create_game s rid user =
     (let game = \<lparr>room_id = rid, players = [user],
                  board = map (\<lambda>_. map (\<lambda>_. '''') [0..<3]) [0..<3],
                  next_turn = username user, finished = False, winner = None,
                  moves = []\<rparr>
      in (game, s\<lparr>games := (games s)(rid \<mapsto> game)\<rparr>))"

text \<open>
  \<^verbatim>\<open>join_game\<close> appends the player to the stored room object; the store holds the
  updated room afterwards. A rejected call leaves the store as it was.
\<close>

definition join_game ::
  "Store \<Rightarrow> string \<Rightarrow> UserPublic \<Rightarrow> (error + GameRoom) \<times> Store" where
  "join_game s rid player =
     (case games s rid of
        None \<Rightarrow> (Inl (ValueError ''Game room not found''), s)
      | Some game \<Rightarrow>
          if 2 \<le> length (players game)
            then (Inl (ValueError ''Game already has two players''), s)
          else if username player \<in> set (map username (players game))
            then (Inl (ValueError ''Player already in game''), s)
          else if finished game then (Inl (ValueError ''Game already finished''), s)
          else (let game' = game\<lparr>players := players game @ [player]\<rparr>
                in (Inr game', s\<lparr>games := (games s)(rid \<mapsto> game')\<rparr>)))"

definition get_game :: "Store \<Rightarrow> string \<Rightarrow> GameRoom option" where
  "get_game s rid = games s rid"

definition save_game :: "Store \<Rightarrow> GameRoom \<Rightarrow> Store" where
  "save_game s game = s\<lparr>games := (games s)(room_id game \<mapsto> game)\<rparr>"


section \<open>Notions of the specification\<close>

text \<open>A 3x3 board: three rows of three cells.\<close>

definition board_3x3 :: "string list list \<Rightarrow> bool" where
  "board_3x3 b \<longleftrightarrow> length b = 3 \<and> list_all (\<lambda>row. length row = 3) b"

text \<open>A room as the data model describes it: a 3x3 board and at least one participant.\<close>

definition room_ok :: "GameRoom \<Rightarrow> bool" where
  "room_ok g \<longleftrightarrow> board_3x3 (board g) \<and> players g \<noteq> []"

text \<open>
  The eight lines by coordinates, in the scan order row 0, column 0, row 1, column 1,
  row 2, column 2, main diagonal, anti-diagonal.
\<close>

definition scan_order :: "(nat \<times> nat) list list" where
  "scan_order =
     [[(0,0),(0,1),(0,2)], [(0,0),(1,0),(2,0)],
      [(1,0),(1,1),(1,2)], [(0,1),(1,1),(2,1)],
      [(2,0),(2,1),(2,2)], [(0,2),(1,2),(2,2)],
      [(0,0),(1,1),(2,2)], [(0,2),(1,1),(2,0)]]"

definition cell :: "string list list \<Rightarrow> nat \<times> nat \<Rightarrow> string" where
  "cell b p = b ! fst p ! snd p"

text \<open>A line holds the mark \<open>m\<close> when each of its three cells is \<open>m\<close>; a mark is a non-empty string.\<close>

definition line_holds :: "string list list \<Rightarrow> string \<Rightarrow> (nat \<times> nat) list \<Rightarrow> bool" where
  "line_holds b m ln \<longleftrightarrow> m \<noteq> '''' \<and> list_all (\<lambda>p. cell b p = m) ln"

definition has_line :: "string list list \<Rightarrow> string \<Rightarrow> bool" where
  "has_line b m \<longleftrightarrow> list_ex (line_holds b m) scan_order"

definition board_full :: "string list list \<Rightarrow> bool" where
  "board_full b \<longleftrightarrow> list_all (\<lambda>row. list_all (\<lambda>x. x \<noteq> '''') row) b"

text \<open>Relabelling: every \<^verbatim>\<open>"X"\<close> becomes \<^verbatim>\<open>"O"\<close> and every \<^verbatim>\<open>"O"\<close> becomes \<^verbatim>\<open>"X"\<close>.\<close>

definition swap_mark :: "string \<Rightarrow> string" where
  "swap_mark x = (if x = ''X'' then ''O'' else if x = ''O'' then ''X'' else x)"

definition swap_board :: "string list list \<Rightarrow> string list list" where
  "swap_board b = map (map swap_mark) b"

text \<open>The number of cells of the board that hold \<open>m\<close>.\<close>

definition mark_count :: "string list list \<Rightarrow> string \<Rightarrow> nat" where
  "mark_count b m = sum_list (map (\<lambda>row. count_list row m) b)"


section \<open>Derived notions\<close>

text \<open>
  The first line of the scan order whose three cells hold the mark of its first cell, if
  there is one.
\<close>

definition first_line :: "string list list \<Rightarrow> (nat \<times> nat) list option" where
  "first_line b = find (\<lambda>ln. line_holds b (cell b (hd ln)) ln) scan_order"

text \<open>
  The symbol \<^verbatim>\<open>make_move\<close> writes for a mover: \<^verbatim>\<open>"X"\<close> for the user name of the first
  participant, \<^verbatim>\<open>"O"\<close> for any other.
\<close>

definition mover_mark :: "GameRoom \<Rightarrow> string \<Rightarrow> string" where
  "mover_mark g u = (if u = username (players g ! 0) then ''X'' else ''O'')"

text \<open>
  The next mover after an accepted move that does not end the game: the first participant
  whose user name differs from the mover's, or the mover when there is none.
\<close>

definition other_turn :: "GameRoom \<Rightarrow> string \<Rightarrow> string" where
  "other_turn g u =
     (let others = filter (\<lambda>x. x \<noteq> u) (map username (players g))
      in if others \<noteq> [] then others ! 0 else u)"

text \<open>
  The board after the mover's symbol has been written at \<open>(r, c)\<close>.
\<close>

definition placed :: "GameRoom \<Rightarrow> string \<Rightarrow> int \<Rightarrow> int \<Rightarrow> string list list" where
  "placed g u r c = (board g)[nat r := (board g ! nat r)[nat c := mover_mark g u]]"

text \<open>
  The room after \<^verbatim>\<open>make_move\<close> has written the board and appended to the move log, before
  the outcome is evaluated.
\<close>

definition marked :: "GameRoom \<Rightarrow> string \<Rightarrow> int \<Rightarrow> int \<Rightarrow> GameRoom" where
  "marked g u r c =
     g\<lparr>board := placed g u r c,
       moves := moves g @ [\<lparr>move_player = u, move_row = r, move_col = c\<rparr>]\<rparr>"


section \<open>Reachable rooms\<close>

text \<open>
  The rooms that \<^verbatim>\<open>create_game\<close>, successful calls of \<^verbatim>\<open>join_game\<close> and accepted calls
  of \<^verbatim>\<open>make_move\<close> produce. The store of a \<^verbatim>\<open>join_game\<close> step is any store that holds
  the room under the identifier used.
\<close>

inductive reachable :: "GameRoom \<Rightarrow> bool" where
  created: "create_game s rid user = (g, s') \<Longrightarrow> reachable g"
| joined: "reachable g \<Longrightarrow> get_game s rid = Some g \<Longrightarrow> join_game s rid p = (Inr g', s')
    \<Longrightarrow> reachable g'"
| moved: "reachable g \<Longrightarrow> make_move g u r c = (Inr st, g') \<Longrightarrow> reachable g'"

text \<open>
  The rooms in which the second participant joined before any move: \<^verbatim>\<open>create_game\<close>,
  then \<^verbatim>\<open>join_game\<close> on the store that \<^verbatim>\<open>create_game\<close> returned, then accepted moves.
\<close>

inductive paired :: "GameRoom \<Rightarrow> bool" where
  seated: "create_game s rid a = (g0, s1) \<Longrightarrow> join_game s1 rid b = (Inr g1, s2) \<Longrightarrow> paired g1"
| played: "paired g \<Longrightarrow> make_move g u r c = (Inr st, g') \<Longrightarrow> paired g'"

text \<open>
  The invariant of every reachable room: the first participant writes \<^verbatim>\<open>"X"\<close>, and it
  is another participant's turn only when \<^verbatim>\<open>"X"\<close> is ahead.
\<close>

definition turn_inv :: "GameRoom \<Rightarrow> bool" where
  "turn_inv g \<longleftrightarrow>
     board_3x3 (board g) \<and> players g \<noteq> []
     \<and> mark_count (board g) ''O'' \<le> mark_count (board g) ''X''
     \<and> (\<not> finished g \<and> next_turn g \<noteq> username (players g ! 0)
          \<longrightarrow> mark_count (board g) ''O'' + 1 \<le> mark_count (board g) ''X'')"

text \<open>
  The invariant of the rooms with both participants seated before the first move.
\<close>

definition paired_inv :: "GameRoom \<Rightarrow> bool" where
  "paired_inv g \<longleftrightarrow>
     board_3x3 (board g)
     \<and> length (players g) = 2 \<and> username (players g ! 0) \<noteq> username (players g ! 1)
     \<and> (mark_count (board g) ''X'' = mark_count (board g) ''O''
          \<or> mark_count (board g) ''X'' = mark_count (board g) ''O'' + 1)
     \<and> (\<not> finished g \<longrightarrow>
           (if mark_count (board g) ''X'' = mark_count (board g) ''O''
            then next_turn g = username (players g ! 0)
            else next_turn g = username (players g ! 1)))"


text \<open>
  The lines of a reachable room: none is held while the game is open, and the lines held
  once it is finished all hold the same mark.
\<close>

definition line_inv :: "GameRoom \<Rightarrow> bool" where
  "line_inv g \<longleftrightarrow>
     (\<not> finished g \<longrightarrow> (\<forall>m. \<not> has_line (board g) m))
     \<and> (\<forall>m m'. has_line (board g) m \<and> has_line (board g) m' \<longrightarrow> m = m')"


section \<open>Example rooms\<close>

text \<open>
  A sequence of moves applied to a room; \<open>None\<close> as soon as \<^verbatim>\<open>make_move\<close> rejects one
  of them.
\<close>

fun play :: "GameRoom \<Rightarrow> (string \<times> int \<times> int) list \<Rightarrow> GameRoom option" where
  "play g [] = Some g"
| "play g ((u, r, c) # ms) =
     (case make_move g u r c of (Inr _, g') \<Rightarrow> play g' ms | (Inl _, _) \<Rightarrow> None)"

definition alice :: UserPublic where
  "alice = \<lparr>username = ''alice'', user_id = 1\<rparr>"

definition bob :: UserPublic where
  "bob = \<lparr>username = ''bob'', user_id = 2\<rparr>"

definition no_rooms :: Store where
  "no_rooms = \<lparr>games = Map.empty\<rparr>"

text \<open>
  The room \<^verbatim>\<open>create_game\<close> makes for \<open>alice\<close> when the identifier drawn is \<^verbatim>\<open>r1\<close>.
\<close>

definition opened_room :: GameRoom where
  "opened_room =
     \<lparr>room_id = ''r1'', players = [alice],
      board = [['''', '''', ''''], ['''', '''', ''''], ['''', '''', '''']],
      next_turn = ''alice'', finished = False, winner = None, moves = []\<rparr>"

text \<open>
  The same room after \<open>bob\<close> has joined.
\<close>

definition seated_room :: GameRoom where
  "seated_room = opened_room\<lparr>players := [alice, bob]\<rparr>"

text \<open>
  The game of the specification's test: A (0,0), B (1,1), A (0,1), B (2,2), and then
  A (0,2), which completes the top row.
\<close>

definition top_row_moves :: "(string \<times> int \<times> int) list" where
  "top_row_moves = [(''alice'', 0, 0), (''bob'', 1, 1), (''alice'', 0, 1), (''bob'', 2, 2)]"

definition top_row_pending :: GameRoom where
  "top_row_pending =
     \<lparr>room_id = ''r1'', players = [alice, bob],
      board = [[''X'', ''X'', ''''], ['''', ''O'', ''''], ['''', '''', ''O'']],
      next_turn = ''alice'', finished = False, winner = None,
      moves = [\<lparr>move_player = ''alice'', move_row = 0, move_col = 0\<rparr>,
               \<lparr>move_player = ''bob'', move_row = 1, move_col = 1\<rparr>,
               \<lparr>move_player = ''alice'', move_row = 0, move_col = 1\<rparr>,
               \<lparr>move_player = ''bob'', move_row = 2, move_col = 2\<rparr>]\<rparr>"

definition top_row_won :: GameRoom where
  "top_row_won =
     top_row_pending\<lparr>
       board := [[''X'', ''X'', ''X''], ['''', ''O'', ''''], ['''', '''', ''O'']],
       finished := True, winner := Some ''X'',
       moves := moves top_row_pending
         @ [\<lparr>move_player = ''alice'', move_row = 0, move_col = 2\<rparr>]\<rparr>"

definition top_row_state :: GameState where
  "top_row_state =
     \<lparr>state_board = [[''X'', ''X'', ''X''], ['''', ''O'', ''''], ['''', '''', ''O'']],
      state_next_turn = None, state_winner = Some ''X'', state_finished = True\<rparr>"

text \<open>
  The room after its only participant has moved twice in a row.
\<close>

definition solo_room :: GameRoom where
  "solo_room =
     \<lparr>room_id = ''r1'', players = [alice],
      board = [[''X'', '''', ''''], ['''', ''X'', ''''], ['''', '''', '''']],
      next_turn = ''alice'', finished = False, winner = None,
      moves = [\<lparr>move_player = ''alice'', move_row = 0, move_col = 0\<rparr>,
               \<lparr>move_player = ''alice'', move_row = 1, move_col = 1\<rparr>]\<rparr>"

text \<open>
  A board that no legal game reaches: both marks hold a row.
\<close>

definition both_win :: "string list list" where
  "both_win = [[''X'', ''X'', ''X''], [''O'', ''O'', ''O''], ['''', '''', '''']]"


section \<open>Evaluating a board\<close>

lemma board_3x3_cases:
  assumes "board_3x3 b"
  obtains a1 a2 a3 a4 a5 a6 a7 a8 a9
  where "b = [[a1, a2, a3], [a4, a5, a6], [a7, a8, a9]]"
proof -
  have len3: "\<exists>x y z. xs = [x, y, z]" if "length xs = 3" for xs :: "'a list"
    using that by (auto simp: length_Suc_conv eval_nat_numeral)
  from assms obtain r0 r1 r2 where b: "b = [r0, r1, r2]"
    using len3 [of b] by (auto simp: board_3x3_def)
  with assms have "length r0 = 3" "length r1 = 3" "length r2 = 3"
    by (simp_all add: board_3x3_def)
  then obtain a1 a2 a3 a4 a5 a6 a7 a8 a9
    where "r0 = [a1, a2, a3]" "r1 = [a4, a5, a6]" "r2 = [a7, a8, a9]"
    using len3 [of r0] len3 [of r1] len3 [of r2] by auto
  with b show thesis using that by blast
qed

lemma upt_3: "[0..<3] = [0, 1, 2]"
  by (simp add: upt_rec)

lemma board_lines_scan:
  assumes "board_3x3 b"
  shows "board_lines b = map (map (cell b)) scan_order"
proof -
  from assms obtain a1 a2 a3 a4 a5 a6 a7 a8 a9
    where "b = [[a1, a2, a3], [a4, a5, a6], [a7, a8, a9]]"
    by (rule board_3x3_cases)
  then show ?thesis
    by (simp add: board_lines_def scan_order_def cell_def upt_3)
qed

lemma board_3x3_subscripts: "board_3x3 b \<Longrightarrow> subscripts_ok b"
  by (erule board_3x3_cases) (simp add: subscripts_ok_def)

lemma line_wins_3: "line_wins [x, y, z] \<longleftrightarrow> x \<noteq> '''' \<and> y = x \<and> z = x"
  by (auto simp: line_wins_def)

lemma length_scan_line: "ln \<in> set scan_order \<Longrightarrow> \<exists>p q r. ln = [p, q, r]"
  by (auto simp: scan_order_def)

lemma line_wins_holds:
  assumes "ln \<in> set scan_order"
  shows "line_wins (map (cell b) ln) \<longleftrightarrow> line_holds b (cell b (hd ln)) ln"
proof -
  from assms obtain p q r where "ln = [p, q, r]"
    using length_scan_line by blast
  then show ?thesis
    by (auto simp: line_wins_3 line_holds_def)
qed

lemma line_holds_hd:
  assumes "ln \<in> set scan_order" "line_holds b m ln"
  shows "m = cell b (hd ln)"
proof -
  from assms(1) obtain p q r where "ln = [p, q, r]"
    using length_scan_line by blast
  with assms(2) show ?thesis
    by (simp add: line_holds_def)
qed

lemma hd_scan_line: "ln \<in> set scan_order \<Longrightarrow> hd ln \<in> set ln"
  by (auto simp: scan_order_def)

lemma find_map: "find P (map f xs) = map_option f (find (P \<circ> f) xs)"
  by (induction xs) auto

lemma full_concat: "list_all P (concat b) \<longleftrightarrow> list_all (list_all P) b"
  by (induction b) auto

text \<open>
  On a 3x3 board \<^verbatim>\<open>check_winner\<close> is the scan of the eight coordinate lines, followed by
  the test for a full board.
\<close>

lemma check_winner_3x3:
  assumes "board_3x3 b"
  shows "check_winner b =
    (case first_line b of
       Some ln \<Rightarrow> Inr (Some (cell b (hd ln)), True)
     | None \<Rightarrow> if board_full b then Inr (None, True) else Inr (None, False))"
proof -
  have "find line_wins (map (map (cell b)) scan_order)
      = map_option (map (cell b)) (first_line b)"
    unfolding find_map first_line_def
    by (rule arg_cong [where f = "map_option (map (cell b))"], rule find_cong)
       (simp_all add: line_wins_holds)
  moreover have "ln \<noteq> [] \<Longrightarrow> map (cell b) ln ! 0 = cell b (hd ln)" for ln
    by (cases ln) simp_all
  moreover have "first_line b = Some ln \<Longrightarrow> ln \<noteq> []" for ln
    by (auto simp: first_line_def find_Some_iff scan_order_def nth_Cons' split: if_splits)
  ultimately show ?thesis
    using assms
    by (auto simp: check_winner_def board_lines_scan board_3x3_subscripts full_concat
        board_full_def split: option.splits)
qed

lemma check_winner_error: "check_winner b = Inl e \<Longrightarrow> e = IndexError"
  by (auto simp: check_winner_def split: if_splits option.splits)

lemma check_winner_total: "board_3x3 b \<Longrightarrow> \<exists>w fin. check_winner b = Inr (w, fin)"
  by (auto simp: check_winner_3x3 split: option.splits)

lemma has_line_iff: "has_line b m \<longleftrightarrow> (\<exists>ln \<in> set scan_order. line_holds b m ln)"
  by (simp add: has_line_def list_ex_iff)

lemma first_line_Some:
  assumes "first_line b = Some ln"
  shows "ln \<in> set scan_order" and "line_holds b (cell b (hd ln)) ln"
  using assms by (auto simp: first_line_def find_Some_iff)

lemma first_line_None: "first_line b = None \<longleftrightarrow> (\<forall>m. \<not> has_line b m)"
  using line_holds_hd by (auto simp: first_line_def find_None_iff has_line_iff)

lemma winner_sound:
  assumes "board_3x3 b" "check_winner b = Inr (Some m, fin)"
  shows "has_line b m \<and> fin"
  using assms first_line_Some [of b]
  by (auto simp: check_winner_3x3 has_line_iff split: option.splits if_splits)

lemma winner_exists:
  assumes "board_3x3 b" "has_line b m"
  shows "\<exists>m'. check_winner b = Inr (Some m', True)"
proof (cases "first_line b")
  case None
  with assms(2) show ?thesis by (simp add: first_line_None)
next
  case (Some ln)
  with assms(1) show ?thesis by (simp add: check_winner_3x3)
qed

lemma draw_iff:
  assumes "board_3x3 b"
  shows "check_winner b = Inr (None, fin) \<longleftrightarrow> (\<forall>m. \<not> has_line b m) \<and> (fin \<longleftrightarrow> board_full b)"
  using assms first_line_None [of b]
  by (auto simp: check_winner_3x3 split: option.splits)

lemmas eval_defs =
  make_move_def check_winner_def subscripts_ok_def board_lines_def line_wins_def upt_3 Let_def

lemma cw_both: "check_winner both_win = Inr (Some ''X'', True)"
  by (simp add: both_win_def check_winner_def subscripts_ok_def board_lines_def upt_3 line_wins_def)

lemma board_top_row_won:
  "board top_row_won = [[''X'', ''X'', ''X''], ['''', ''O'', ''''], ['''', '''', ''O'']]"
  by (simp add: top_row_won_def)

lemma board_3x3_top_row_won: "board_3x3 (board top_row_won)"
  by (simp add: board_top_row_won board_3x3_def)

lemma check_winner_top_row_won: "check_winner (board top_row_won) = Inr (Some ''X'', True)"
  by (simp add: board_top_row_won eval_defs)

lemma board_3x3_both_win: "board_3x3 both_win"
  by (simp add: both_win_def board_3x3_def)

lemma swap_mark_eq_iff: "swap_mark x = swap_mark y \<longleftrightarrow> x = y"
  by (auto simp: swap_mark_def)

lemma swap_mark_empty_iff: "swap_mark x = '''' \<longleftrightarrow> x = ''''"
  by (auto simp: swap_mark_def)

lemma board_3x3_swap: "board_3x3 b \<Longrightarrow> board_3x3 (swap_board b)"
  by (simp add: board_3x3_def swap_board_def list_all_iff)

lemma cell_swap:
  assumes "board_3x3 b" "ln \<in> set scan_order" "p \<in> set ln"
  shows "cell (swap_board b) p = swap_mark (cell b p)"
proof -
  from assms(1) obtain a1 a2 a3 a4 a5 a6 a7 a8 a9
    where "b = [[a1, a2, a3], [a4, a5, a6], [a7, a8, a9]]"
    by (rule board_3x3_cases)
  with assms(2,3) show ?thesis
    by (auto simp: scan_order_def cell_def swap_board_def)
qed

lemma line_holds_swap:
  assumes "board_3x3 b" "ln \<in> set scan_order"
  shows "line_holds (swap_board b) (swap_mark m) ln \<longleftrightarrow> line_holds b m ln"
  using assms
  by (simp add: line_holds_def list_all_iff cell_swap swap_mark_eq_iff swap_mark_empty_iff)

lemma first_line_swap:
  assumes "board_3x3 b"
  shows "first_line (swap_board b) = first_line b"
  unfolding first_line_def
proof (rule find_cong [OF refl])
  fix ln assume ln: "ln \<in> set scan_order"
  then have "cell (swap_board b) (hd ln) = swap_mark (cell b (hd ln))"
    using assms cell_swap hd_scan_line by blast
  with assms ln
  show "line_holds (swap_board b) (cell (swap_board b) (hd ln)) ln
      = line_holds b (cell b (hd ln)) ln"
    by (simp add: line_holds_swap)
qed

lemma board_full_swap: "board_full (swap_board b) \<longleftrightarrow> board_full b"
  by (simp add: board_full_def swap_board_def list_all_iff swap_mark_empty_iff)

text \<open>
  Claim C8. On every 3x3 board, exchanging the two marks leaves the finished flag of
  \<^verbatim>\<open>check_winner\<close> as it was and exchanges the winner: a win for one mark becomes a win
  for the other, a draw stays a draw, and a game in progress stays in progress.
\<close>

theorem check_winner_relabel:
  assumes "board_3x3 b"
  shows "\<exists>w fin. check_winner b = Inr (w, fin)
           \<and> check_winner (swap_board b) = Inr (map_option swap_mark w, fin)"
proof (cases "first_line b")
  case None
  with assms show ?thesis
    by (auto simp: check_winner_3x3 board_3x3_swap first_line_swap board_full_swap)
next
  case (Some ln)
  then have "cell (swap_board b) (hd ln) = swap_mark (cell b (hd ln))"
    using assms cell_swap hd_scan_line first_line_Some(1) by blast
  with Some assms show ?thesis
    by (auto simp: check_winner_3x3 board_3x3_swap first_line_swap)
qed

theorem check_winner_relabel_witness:
  "board_3x3 (board top_row_won)
   \<and> check_winner (board top_row_won) = Inr (Some ''X'', True)
   \<and> check_winner (swap_board (board top_row_won)) = Inr (Some ''O'', True)"
proof -
  from check_winner_relabel [OF board_3x3_top_row_won] check_winner_top_row_won
  have "check_winner (swap_board (board top_row_won)) = Inr (Some ''O'', True)"
    by (auto simp: swap_mark_def)
  with board_3x3_top_row_won check_winner_top_row_won show ?thesis by simp
qed

text \<open>
  Claim C10. On every 3x3 board, whatever its cells, \<^verbatim>\<open>check_winner\<close> returns a result
  and raises nothing; and when the line at position \<open>k\<close> of the scan order (row 0, column
  0, row 1, column 1, row 2, column 2, main diagonal, anti-diagonal) holds a mark and no
  earlier line holds any, the result is a win for the mark of that line.
\<close>

theorem check_winner_total_first:
  assumes "board_3x3 b"
  shows "(\<exists>res. check_winner b = Inr res)
       \<and> (\<forall>k m. k < length scan_order \<and> line_holds b m (scan_order ! k)
                \<and> (\<forall>j<k. \<forall>m'. \<not> line_holds b m' (scan_order ! j))
             \<longrightarrow> check_winner b = Inr (Some m, True))"
proof (intro conjI allI impI)
  show "\<exists>res. check_winner b = Inr res"
    using assms by (auto simp: check_winner_3x3 split: option.splits)
next
  fix k m
  assume h: "k < length scan_order \<and> line_holds b m (scan_order ! k)
                \<and> (\<forall>j<k. \<forall>m'. \<not> line_holds b m' (scan_order ! j))"
  then have mem: "scan_order ! k \<in> set scan_order" by simp
  with h have m: "m = cell b (hd (scan_order ! k))"
    using line_holds_hd by blast
  have "first_line b = Some (scan_order ! k)"
    unfolding first_line_def find_Some_iff using h m by blast
  with assms m show "check_winner b = Inr (Some m, True)"
    by (simp add: check_winner_3x3)
qed

theorem check_winner_total_first_witness:
  "board_3x3 both_win
   \<and> line_holds both_win ''O'' (scan_order ! 2)
   \<and> line_holds both_win ''X'' (scan_order ! 0)
   \<and> check_winner both_win = Inr (Some ''X'', True)"
proof -
  have o: "line_holds both_win ''O'' (scan_order ! 2)"
    by (simp add: both_win_def scan_order_def line_holds_def cell_def)
  have x: "0 < length scan_order \<and> line_holds both_win ''X'' (scan_order ! 0)
      \<and> (\<forall>j<0. \<forall>m'. \<not> line_holds both_win m' (scan_order ! j))"
    by (simp add: both_win_def scan_order_def line_holds_def cell_def)
  from check_winner_total_first [OF board_3x3_both_win] x
  have "check_winner both_win = Inr (Some ''X'', True)" by blast
  with board_3x3_both_win o x show ?thesis by simp
qed


section \<open>Applying a move\<close>

lemma board_3x3_place:
  assumes "board_3x3 b"
  shows "board_3x3 (b[i := (b ! i)[j := v]])"
proof (cases "i < length b")
  case True
  with assms show ?thesis
    by (auto simp: board_3x3_def list_all_length nth_list_update)
next
  case False
  then have "b[i := (b ! i)[j := v]] = b" by (simp add: not_less list_update_beyond)
  with assms show ?thesis by simp
qed

lemma nth_update_any: "xs[i := x] ! j = (if i = j \<and> j < length xs then x else xs ! j)"
  by (cases "i < length xs") (auto simp: nth_list_update not_less list_update_beyond)

lemma placed_nth:
  assumes "i < length (board g)" "j < length (board g ! i)"
  shows "placed g u r c ! i ! j
     = (if i = nat r \<and> j = nat c then mover_mark g u else board g ! i ! j)"
  using assms by (auto simp: placed_def nth_update_any)

lemma placed_lengths:
  "length (placed g u r c) = length (board g)"
  "i < length (board g) \<Longrightarrow> length (placed g u r c ! i) = length (board g ! i)"
  by (auto simp: placed_def nth_update_any)

lemma mover_mark_nonempty: "mover_mark g u \<noteq> ''''"
  by (simp add: mover_mark_def)

text \<open>
  \<^verbatim>\<open>make_move\<close> with its local bindings unfolded: the six checks in the order of the
  source, then the outcome of \<^verbatim>\<open>check_winner\<close> on the written board.
\<close>

lemma make_move_unfold:
  "make_move g u r c =
     (if finished g then (Inl GameFinished, g)
      else if u \<noteq> next_turn g then (Inl OutOfTurn, g)
      else if \<not> (0 \<le> r \<and> r < 3 \<and> 0 \<le> c \<and> c < 3) then (Inl OutOfBounds, g)
      else if \<not> (nat r < length (board g) \<and> nat c < length (board g ! nat r))
        then (Inl IndexError, g)
      else if board g ! nat r ! nat c \<noteq> '''' then (Inl CellOccupied, g)
      else if players g = [] then (Inl IndexError, g)
      else case check_winner (placed g u r c) of
          Inl e \<Rightarrow> (Inl e, marked g u r c)
        | Inr (w, fin) \<Rightarrow>
            (Inr \<lparr>state_board = placed g u r c,
                  state_next_turn = (if fin then None else Some (other_turn g u)),
                  state_winner = w, state_finished = fin\<rparr>,
             if fin then (marked g u r c)\<lparr>finished := True, winner := w\<rparr>
             else (marked g u r c)\<lparr>next_turn := other_turn g u, winner := None\<rparr>))"
proof (cases "finished g \<or> u \<noteq> next_turn g \<or> \<not> (0 \<le> r \<and> r < 3 \<and> 0 \<le> c \<and> c < 3)
    \<or> \<not> (nat r < length (board g) \<and> nat c < length (board g ! nat r))
    \<or> board g ! nat r ! nat c \<noteq> '''' \<or> players g = []")
  case True
  then show ?thesis
    by (auto simp: make_move_def)
next
  case ok: False
  show ?thesis
  proof (cases "check_winner (placed g u r c)")
    case (Inl e)
    then have "check_winner
        ((board g)[nat r := (board g ! nat r)[nat c := mover_mark g u]]) = Inl e"
      by (simp add: placed_def)
    with ok show ?thesis
      by (simp add: make_move_def Let_def marked_def placed_def flip: mover_mark_def)
  next
    case (Inr res)
    then have cw: "check_winner
        ((board g)[nat r := (board g ! nat r)[nat c := mover_mark g u]]) = Inr res"
      by (simp add: placed_def)
    obtain w fin where res: "res = (w, fin)" by (cases res)
    show ?thesis
      using ok cw res
      by (cases fin)
         (simp_all add: make_move_def Let_def marked_def placed_def other_turn_def
            flip: mover_mark_def)
  qed
qed

lemma make_move_accepted:
  assumes "make_move g u r c = (Inr st, g')"
  obtains w fin where
    "\<not> finished g" "u = next_turn g" "0 \<le> r" "r < 3" "0 \<le> c" "c < 3"
    "nat r < length (board g)" "nat c < length (board g ! nat r)"
    "board g ! nat r ! nat c = ''''" "players g \<noteq> []"
    "check_winner (placed g u r c) = Inr (w, fin)"
    "g' = (if fin then (marked g u r c)\<lparr>finished := True, winner := w\<rparr>
           else (marked g u r c)\<lparr>next_turn := other_turn g u, winner := None\<rparr>)"
    "st = \<lparr>state_board = placed g u r c,
           state_next_turn = (if fin then None else Some (other_turn g u)),
           state_winner = w, state_finished = fin\<rparr>"
proof -
  from assms have pre: "\<not> finished g" "u = next_turn g" "0 \<le> r" "r < 3" "0 \<le> c" "c < 3"
    "nat r < length (board g)" "nat c < length (board g ! nat r)"
    "board g ! nat r ! nat c = ''''" "players g \<noteq> []"
    unfolding make_move_unfold by (simp_all split: if_splits)
  show thesis
  proof (cases "check_winner (placed g u r c)")
    case (Inl e)
    with assms pre show thesis unfolding make_move_unfold by simp
  next
    case (Inr res)
    obtain w fin where res: "res = (w, fin)" by (cases res)
    from assms pre Inr res have
      "g' = (if fin then (marked g u r c)\<lparr>finished := True, winner := w\<rparr>
           else (marked g u r c)\<lparr>next_turn := other_turn g u, winner := None\<rparr>)"
      "st = \<lparr>state_board = placed g u r c,
           state_next_turn = (if fin then None else Some (other_turn g u)),
           state_winner = w, state_finished = fin\<rparr>"
      unfolding make_move_unfold by simp_all
    with pre Inr res show thesis using that by blast
  qed
qed

lemma make_move_succeeds:
  assumes "room_ok g" "\<not> finished g" "u = next_turn g" "0 \<le> r" "r < 3" "0 \<le> c" "c < 3"
    "board g ! nat r ! nat c = ''''"
  shows "\<exists>st. fst (make_move g u r c) = Inr st"
proof -
  from assms(1) have b: "board_3x3 (board g)" and p: "players g \<noteq> []"
    by (simp_all add: room_ok_def)
  from b assms(4-7) have idx: "nat r < length (board g)" "nat c < length (board g ! nat r)"
    by (auto simp: board_3x3_def list_all_length)
  from p obtain p0 ps where ps: "players g = p0 # ps" by (cases "players g") auto
  obtain w fin where "check_winner (placed g u r c) = Inr (w, fin)"
    using check_winner_total [OF board_3x3_place [OF b]] unfolding placed_def by blast
  with assms(2-8) idx p show ?thesis
    by (simp add: make_move_unfold)
qed

lemma create_opened: "create_game no_rooms ''r1'' alice
    = (opened_room, \<lparr>games = [''r1'' \<mapsto> opened_room]\<rparr>)"
  by (simp add: create_game_def Let_def no_rooms_def opened_room_def alice_def upt_3)

lemma join_seated: "join_game \<lparr>games = [''r1'' \<mapsto> opened_room]\<rparr> ''r1'' bob
    = (Inr seated_room, \<lparr>games = [''r1'' \<mapsto> seated_room]\<rparr>)"
  by (simp add: join_game_def Let_def seated_room_def opened_room_def alice_def bob_def)

lemma play_top_row: "play seated_room top_row_moves = Some top_row_pending"
  by (simp add: top_row_moves_def top_row_pending_def seated_room_def opened_room_def
      alice_def bob_def eval_defs)

lemma move_top_row: "make_move top_row_pending ''alice'' 0 2 = (Inr top_row_state, top_row_won)"
  by (simp add: top_row_pending_def top_row_won_def top_row_state_def alice_def bob_def
      eval_defs)

lemma play_solo: "play opened_room [(''alice'', 0, 0), (''alice'', 1, 1)] = Some solo_room"
  by (simp add: solo_room_def opened_room_def alice_def eval_defs)

lemma room_ok_examples: "room_ok opened_room" "room_ok solo_room" "room_ok top_row_won"
  by (simp_all add: room_ok_def board_3x3_def opened_room_def solo_room_def top_row_won_def
      top_row_pending_def)

text \<open>
  Claim C3. For every room with a 3x3 board and at least one participant, and every
  participant, row and column: \<^verbatim>\<open>make_move\<close> fails with \<open>GameFinished\<close> when the room is
  finished; otherwise with \<open>OutOfTurn\<close> when the participant is not the recorded next
  mover; otherwise with \<open>OutOfBounds\<close> when the row or the column is outside 0..2;
  otherwise with \<open>CellOccupied\<close> when the target cell is not empty; and otherwise it
  succeeds.
\<close>

theorem make_move_error_order:
  assumes "room_ok g"
  shows "(finished g \<longrightarrow> fst (make_move g u r c) = Inl GameFinished)
    \<and> (\<not> finished g \<and> u \<noteq> next_turn g \<longrightarrow> fst (make_move g u r c) = Inl OutOfTurn)
    \<and> (\<not> finished g \<and> u = next_turn g \<and> (r < 0 \<or> 2 < r \<or> c < 0 \<or> 2 < c)
         \<longrightarrow> fst (make_move g u r c) = Inl OutOfBounds)
    \<and> (\<not> finished g \<and> u = next_turn g \<and> 0 \<le> r \<and> r \<le> 2 \<and> 0 \<le> c \<and> c \<le> 2
          \<and> board g ! nat r ! nat c \<noteq> ''''
         \<longrightarrow> fst (make_move g u r c) = Inl CellOccupied)
    \<and> (\<not> finished g \<and> u = next_turn g \<and> 0 \<le> r \<and> r \<le> 2 \<and> 0 \<le> c \<and> c \<le> 2
          \<and> board g ! nat r ! nat c = ''''
         \<longrightarrow> (\<exists>st. fst (make_move g u r c) = Inr st))"
proof (intro conjI impI)
  show "fst (make_move g u r c) = Inl GameFinished" if "finished g"
    using that by (simp add: make_move_unfold)
  show "fst (make_move g u r c) = Inl OutOfTurn" if "\<not> finished g \<and> u \<noteq> next_turn g"
    using that by (simp add: make_move_unfold)
  show "fst (make_move g u r c) = Inl OutOfBounds"
    if "\<not> finished g \<and> u = next_turn g \<and> (r < 0 \<or> 2 < r \<or> c < 0 \<or> 2 < c)"
    using that by (auto simp: make_move_unfold)
  show "fst (make_move g u r c) = Inl CellOccupied"
    if h: "\<not> finished g \<and> u = next_turn g \<and> 0 \<le> r \<and> r \<le> 2 \<and> 0 \<le> c \<and> c \<le> 2
          \<and> board g ! nat r ! nat c \<noteq> ''''"
  proof -
    from assms h have "nat r < length (board g)" "nat c < length (board g ! nat r)"
      by (auto simp: room_ok_def board_3x3_def list_all_length)
    with h show ?thesis by (simp add: make_move_unfold)
  qed
  show "\<exists>st. fst (make_move g u r c) = Inr st"
    if "\<not> finished g \<and> u = next_turn g \<and> 0 \<le> r \<and> r \<le> 2 \<and> 0 \<le> c \<and> c \<le> 2
          \<and> board g ! nat r ! nat c = ''''"
    using that assms make_move_succeeds [of g u r c] by simp
qed

theorem make_move_error_order_witness:
  "room_ok top_row_won \<and> room_ok opened_room \<and> room_ok solo_room
   \<and> fst (make_move top_row_won ''bob'' 1 0) = Inl GameFinished
   \<and> fst (make_move opened_room ''bob'' 0 0) = Inl OutOfTurn
   \<and> fst (make_move opened_room ''alice'' 3 0) = Inl OutOfBounds
   \<and> fst (make_move solo_room ''alice'' 1 1) = Inl CellOccupied
   \<and> fst (make_move opened_room ''alice'' 0 0)
       = Inr \<lparr>state_board = [[''X'', '''', ''''], ['''', '''', ''''], ['''', '''', '''']],
               state_next_turn = Some ''alice'', state_winner = None,
               state_finished = False\<rparr>"
proof -
  have "fst (make_move top_row_won ''bob'' 1 0) = Inl GameFinished"
    using make_move_error_order [OF room_ok_examples(3), of "''bob''" 1 0]
    by (simp add: top_row_won_def)
  moreover have "fst (make_move opened_room ''bob'' 0 0) = Inl OutOfTurn"
    using make_move_error_order [OF room_ok_examples(1), of "''bob''" 0 0]
    by (simp add: opened_room_def)
  moreover have "fst (make_move opened_room ''alice'' 3 0) = Inl OutOfBounds"
    using make_move_error_order [OF room_ok_examples(1), of "''alice''" 3 0]
    by (simp add: opened_room_def)
  moreover have "fst (make_move solo_room ''alice'' 1 1) = Inl CellOccupied"
    using make_move_error_order [OF room_ok_examples(2), of "''alice''" 1 1]
    by (simp add: solo_room_def)
  moreover have "fst (make_move opened_room ''alice'' 0 0)
       = Inr \<lparr>state_board = [[''X'', '''', ''''], ['''', '''', ''''], ['''', '''', '''']],
               state_next_turn = Some ''alice'', state_winner = None,
               state_finished = False\<rparr>"
    by (simp add: opened_room_def alice_def eval_defs)
  ultimately show ?thesis
    using room_ok_examples by simp
qed

text \<open>
  Claim C4. Whenever \<^verbatim>\<open>make_move\<close> rejects a move with one of its \<^verbatim>\<open>ValueError\<close>s
  (finished room, out of turn, out of bounds, occupied cell), the room it leaves is the
  room it was given: board, participants, next mover, finished flag, winner and move log
  are all as before.
\<close>

theorem make_move_rejected_unchanged:
  assumes "fst (make_move g u r c) = Inl (ValueError msg)"
  shows "snd (make_move g u r c) = g"
proof (cases "check_winner (placed g u r c)")
  case (Inl e)
  then have "e = IndexError" by (rule check_winner_error)
  with Inl assms show ?thesis
    unfolding make_move_unfold by (auto split: if_splits)
next
  case (Inr res)
  obtain w fin where "res = (w, fin)" by (cases res)
  with Inr assms show ?thesis
    unfolding make_move_unfold by (auto split: if_splits)
qed

theorem make_move_rejected_unchanged_witness:
  "fst (make_move solo_room ''alice'' 1 1) = Inl CellOccupied
   \<and> snd (make_move solo_room ''alice'' 1 1) = solo_room"
proof -
  have e: "fst (make_move solo_room ''alice'' 1 1) = Inl CellOccupied"
    by (simp add: solo_room_def alice_def make_move_def)
  from make_move_rejected_unchanged [OF e] e show ?thesis by simp
qed

text \<open>
  Claim C9. For every move that \<^verbatim>\<open>make_move\<close> accepts: the room identifier and the
  participant list are unchanged; one entry (mover, row, column) is appended at the end of
  the move log; the target is a cell of the board that was empty and now holds the mover's
  mark; the board keeps its shape; and every other cell is as it was.
\<close>

theorem make_move_frame:
  assumes "make_move g u r c = (Inr st, g')"
  shows "room_id g' = room_id g \<and> players g' = players g
    \<and> moves g' = moves g @ [\<lparr>move_player = u, move_row = r, move_col = c\<rparr>]
    \<and> 0 \<le> r \<and> r < 3 \<and> 0 \<le> c \<and> c < 3
    \<and> nat r < length (board g) \<and> nat c < length (board g ! nat r)
    \<and> board g ! nat r ! nat c = ''''
    \<and> board g' ! nat r ! nat c = mover_mark g u \<and> mover_mark g u \<noteq> ''''
    \<and> length (board g') = length (board g)
    \<and> (\<forall>i < length (board g). length (board g' ! i) = length (board g ! i))
    \<and> (\<forall>i j. i < length (board g) \<and> j < length (board g ! i) \<and> (i, j) \<noteq> (nat r, nat c)
          \<longrightarrow> board g' ! i ! j = board g ! i ! j)"
proof -
  from assms obtain w fin where
    pre: "0 \<le> r" "r < 3" "0 \<le> c" "c < 3"
      "nat r < length (board g)" "nat c < length (board g ! nat r)"
      "board g ! nat r ! nat c = ''''"
    and g': "g' = (if fin then (marked g u r c)\<lparr>finished := True, winner := w\<rparr>
           else (marked g u r c)\<lparr>next_turn := other_turn g u, winner := None\<rparr>)"
    by (rule make_move_accepted)
  from g' have b: "board g' = placed g u r c"
    and rest: "room_id g' = room_id g" "players g' = players g"
      "moves g' = moves g @ [\<lparr>move_player = u, move_row = r, move_col = c\<rparr>]"
    by (simp_all add: marked_def)
  have "board g' ! nat r ! nat c = mover_mark g u"
    using pre by (simp add: b placed_nth)
  moreover have "\<forall>i j. i < length (board g) \<and> j < length (board g ! i) \<and> (i, j) \<noteq> (nat r, nat c)
          \<longrightarrow> board g' ! i ! j = board g ! i ! j"
    by (auto simp: b placed_nth)
  ultimately show ?thesis
    using pre rest by (simp add: b placed_lengths mover_mark_nonempty)
qed

theorem make_move_frame_witness:
  "make_move top_row_pending ''alice'' 0 2 = (Inr top_row_state, top_row_won)
   \<and> room_id top_row_won = room_id top_row_pending
   \<and> players top_row_won = players top_row_pending
   \<and> moves top_row_won = moves top_row_pending
        @ [\<lparr>move_player = ''alice'', move_row = 0, move_col = 2\<rparr>]
   \<and> board top_row_pending ! 0 ! 2 = ''''
   \<and> board top_row_won ! 0 ! 2 = mover_mark top_row_pending ''alice''"
  using make_move_frame [OF move_top_row] move_top_row by simp

text \<open>
  Claim C2, as amended. For every accepted move whose resulting board is terminal (a win
  or a draw), \<^verbatim>\<open>make_move\<close> sets the finished flag and the winner of the room and leaves
  the \<^verbatim>\<open>next_turn\<close> field of the room as it was, with the mover; the game state it returns
  is finished, carries the same winner and has no next mover.
\<close>

theorem make_move_terminal:
  assumes "make_move g u r c = (Inr st, g')" "check_winner (board g') = Inr (w, True)"
  shows "finished g' \<and> winner g' = w \<and> next_turn g' = next_turn g \<and> next_turn g = u
    \<and> state_finished st \<and> state_winner st = w \<and> state_next_turn st = None"
proof -
  from assms(1) obtain w' fin where
    u: "u = next_turn g"
    and cw: "check_winner (placed g u r c) = Inr (w', fin)"
    and g': "g' = (if fin then (marked g u r c)\<lparr>finished := True, winner := w'\<rparr>
           else (marked g u r c)\<lparr>next_turn := other_turn g u, winner := None\<rparr>)"
    and st: "st = \<lparr>state_board = placed g u r c,
           state_next_turn = (if fin then None else Some (other_turn g u)),
           state_winner = w', state_finished = fin\<rparr>"
    by (rule make_move_accepted)
  from g' have "board g' = placed g u r c"
    by (simp add: marked_def)
  with cw assms(2) have "w' = w" "fin" by simp_all
  with g' st u show ?thesis by (simp add: marked_def)
qed

theorem make_move_terminal_witness:
  "make_move top_row_pending ''alice'' 0 2 = (Inr top_row_state, top_row_won)
   \<and> check_winner (board top_row_won) = Inr (Some ''X'', True)
   \<and> finished top_row_won \<and> winner top_row_won = Some ''X''
   \<and> next_turn top_row_won = next_turn top_row_pending
   \<and> state_finished top_row_state \<and> state_next_turn top_row_state = None"
  using make_move_terminal [OF move_top_row check_winner_top_row_won]
    move_top_row check_winner_top_row_won
  by simp

text \<open>
  Claim C2 as stated fails: the move that completes the top row is accepted and ends the
  game, and the room still records \<open>alice\<close> as its next mover. Only the returned game
  state has no next mover.
\<close>

theorem finished_room_keeps_next_turn:
  "make_move top_row_pending ''alice'' 0 2 = (Inr top_row_state, top_row_won)
   \<and> check_winner (board top_row_won) = Inr (Some ''X'', True)
   \<and> finished top_row_won \<and> next_turn top_row_won = ''alice''"
  by (simp add: move_top_row) (simp add: top_row_won_def top_row_pending_def eval_defs)


section \<open>Invariants of reachable rooms\<close>

lemma count_list_update:
  "j < length xs \<Longrightarrow> xs ! j \<noteq> m \<Longrightarrow>
     count_list (xs[j := v]) m = count_list xs m + (if v = m then 1 else 0)"
proof (induction xs arbitrary: j)
  case Nil
  then show ?case by simp
next
  case (Cons x xs)
  then show ?case by (cases j) simp_all
qed

lemma sum_list_map_update:
  fixes f :: "'a \<Rightarrow> nat"
  shows "i < length xs \<Longrightarrow>
     sum_list (map f (xs[i := y])) + f (xs ! i) = sum_list (map f xs) + f y"
proof (induction xs arbitrary: i)
  case Nil
  then show ?case by simp
next
  case (Cons x xs)
  then show ?case by (cases i) auto
qed

lemma mark_count_place:
  assumes "i < length b" "j < length (b ! i)" "b ! i ! j = ''''" "m \<noteq> ''''"
  shows "mark_count (b[i := (b ! i)[j := v]]) m = mark_count b m + (if v = m then 1 else 0)"
proof -
  have "count_list ((b ! i)[j := v]) m = count_list (b ! i) m + (if v = m then 1 else 0)"
    using count_list_update [OF assms(2), of m v] assms(3,4) by simp
  then show ?thesis
    using sum_list_map_update [OF assms(1), of "\<lambda>row. count_list row m" "(b ! i)[j := v]"]
    by (simp add: mark_count_def)
qed

lemma mark_count_placed:
  assumes "nat r < length (board g)" "nat c < length (board g ! nat r)"
    "board g ! nat r ! nat c = ''''"
  shows "mark_count (placed g u r c) ''X''
           = mark_count (board g) ''X'' + (if mover_mark g u = ''X'' then 1 else 0)"
    and "mark_count (placed g u r c) ''O''
           = mark_count (board g) ''O'' + (if mover_mark g u = ''O'' then 1 else 0)"
  using assms by (simp_all add: placed_def mark_count_place)

lemma mark_count_empty:
  "mark_count [['''', '''', ''''], ['''', '''', ''''], ['''', '''', '''']] m
     = (if m = '''' then 9 else 0)"
  by (simp add: mark_count_def)

lemma create_game_room:
  assumes "create_game s rid user = (g, s')"
  shows "g = \<lparr>room_id = rid, players = [user],
              board = [['''', '''', ''''], ['''', '''', ''''], ['''', '''', '''']],
              next_turn = username user, finished = False, winner = None, moves = []\<rparr>"
    and "games s' rid = Some g"
  using assms by (auto simp: create_game_def Let_def upt_3)

lemma join_game_room:
  assumes "join_game s rid p = (Inr g', s')"
  obtains g where "games s rid = Some g" "\<not> finished g" "length (players g) < 2"
    "username p \<notin> set (map username (players g))"
    "g' = g\<lparr>players := players g @ [p]\<rparr>"
  using assms
  by (auto simp: join_game_def Let_def split: option.splits if_splits)

lemma other_turn_first:
  assumes "players g \<noteq> []" "u \<noteq> username (players g ! 0)"
  shows "other_turn g u = username (players g ! 0)"
  using assms by (cases "players g") (simp_all add: other_turn_def)

lemma other_turn_pair:
  assumes "length (players g) = 2" "username (players g ! 0) \<noteq> username (players g ! 1)"
  shows "other_turn g (username (players g ! 0)) = username (players g ! 1)"
    and "other_turn g (username (players g ! 1)) = username (players g ! 0)"
proof -
  from assms(1) obtain a b where "players g = [a, b]"
    by (auto simp: length_Suc_conv eval_nat_numeral)
  with assms(2) show "other_turn g (username (players g ! 0)) = username (players g ! 1)"
    and "other_turn g (username (players g ! 1)) = username (players g ! 0)"
    by (simp_all add: other_turn_def)
qed

lemma turn_inv_move:
  assumes "turn_inv g" "make_move g u r c = (Inr st, g')"
  shows "turn_inv g'"
proof -
  from assms(2) obtain w fin where
    pre: "\<not> finished g" "u = next_turn g"
      "nat r < length (board g)" "nat c < length (board g ! nat r)"
      "board g ! nat r ! nat c = ''''"
    and g': "g' = (if fin then (marked g u r c)\<lparr>finished := True, winner := w\<rparr>
           else (marked g u r c)\<lparr>next_turn := other_turn g u, winner := None\<rparr>)"
    by (rule make_move_accepted)
  from g' have b: "board g' = placed g u r c" and p: "players g' = players g"
    and f: "finished g' = fin"
    and n: "\<not> fin \<Longrightarrow> next_turn g' = other_turn g u"
    using pre(1) by (simp_all add: marked_def)
  from assms(1) have inv: "board_3x3 (board g)" "players g \<noteq> []"
    "mark_count (board g) ''O'' \<le> mark_count (board g) ''X''"
    "next_turn g \<noteq> username (players g ! 0)
       \<Longrightarrow> mark_count (board g) ''O'' + 1 \<le> mark_count (board g) ''X''"
    using pre(1) by (simp_all add: turn_inv_def)
  have shape: "board_3x3 (board g')"
    unfolding b placed_def using inv(1) by (rule board_3x3_place)
  note cnt = mark_count_placed [OF pre(3-5), of u]
  show ?thesis
  proof (cases "u = username (players g ! 0)")
    case True
    then have "mover_mark g u = ''X''" by (simp add: mover_mark_def)
    with cnt inv(3) shape p inv(2) show ?thesis
      by (simp add: turn_inv_def b)
  next
    case False
    then have m: "mover_mark g u = ''O''" by (simp add: mover_mark_def)
    from False pre(2) inv(4)
    have "mark_count (board g) ''O'' + 1 \<le> mark_count (board g) ''X''" by simp
    moreover have "\<not> fin \<Longrightarrow> next_turn g' = username (players g' ! 0)"
      using n other_turn_first [OF inv(2) False] p by simp
    ultimately show ?thesis
      using cnt m shape p inv(2) f by (auto simp: turn_inv_def b)
  qed
qed

lemma reachable_turn_inv: "reachable g \<Longrightarrow> turn_inv g"
proof (induction rule: reachable.induct)
  case (created s rid user g s')
  show ?case
    unfolding create_game_room(1) [OF created]
    by (simp add: turn_inv_def board_3x3_def mark_count_empty)
next
  case (joined g s rid p g' s')
  from joined.hyps(3) obtain g0 where "games s rid = Some g0"
    "g' = g0\<lparr>players := players g0 @ [p]\<rparr>"
    by (rule join_game_room)
  with joined.hyps(2) have "g' = g\<lparr>players := players g @ [p]\<rparr>"
    by (simp add: get_game_def)
  with joined.IH show ?case
    by (auto simp: turn_inv_def nth_append)
next
  case (moved g u r c st g')
  then show ?case using turn_inv_move by blast
qed

lemma paired_inv_move:
  assumes "paired_inv g" "make_move g u r c = (Inr st, g')"
  shows "paired_inv g'"
proof -
  from assms(2) obtain w fin where
    pre: "\<not> finished g" "u = next_turn g"
      "nat r < length (board g)" "nat c < length (board g ! nat r)"
      "board g ! nat r ! nat c = ''''"
    and g': "g' = (if fin then (marked g u r c)\<lparr>finished := True, winner := w\<rparr>
           else (marked g u r c)\<lparr>next_turn := other_turn g u, winner := None\<rparr>)"
    by (rule make_move_accepted)
  from g' have b: "board g' = placed g u r c" and p: "players g' = players g"
    and f: "finished g' = fin"
    and n: "\<not> fin \<Longrightarrow> next_turn g' = other_turn g u"
    using pre(1) by (simp_all add: marked_def)
  from assms(1) pre(1) have inv: "board_3x3 (board g)" "length (players g) = 2"
    "username (players g ! 0) \<noteq> username (players g ! 1)"
    and turn: "if mark_count (board g) ''X'' = mark_count (board g) ''O''
            then next_turn g = username (players g ! 0)
            else next_turn g = username (players g ! 1)"
    and cnt0: "mark_count (board g) ''X'' = mark_count (board g) ''O''
          \<or> mark_count (board g) ''X'' = mark_count (board g) ''O'' + 1"
    by (simp_all add: paired_inv_def)
  have shape: "board_3x3 (board g')"
    unfolding b placed_def using inv(1) by (rule board_3x3_place)
  note cnt = mark_count_placed [OF pre(3-5), of u]
  note ot = other_turn_pair [OF inv(2,3)]
  show ?thesis
  proof (cases "mark_count (board g) ''X'' = mark_count (board g) ''O''")
    case True
    with turn pre(2) have u: "u = username (players g ! 0)" by simp
    then have "mover_mark g u = ''X''" by (simp add: mover_mark_def)
    with cnt True shape p inv f n u ot show ?thesis
      by (auto simp: paired_inv_def b)
  next
    case False
    with turn pre(2) have u: "u = username (players g ! 1)" by simp
    with inv(3) have "mover_mark g u = ''O''" by (simp add: mover_mark_def)
    with cnt False cnt0 shape p inv f n u ot show ?thesis
      by (auto simp: paired_inv_def b)
  qed
qed

lemma paired_paired_inv: "paired g \<Longrightarrow> paired_inv g"
proof (induction rule: paired.induct)
  case (seated s rid a g0 s1 b g1 s2)
  note room = create_game_room [OF seated(1)]
  from seated(2) obtain g where "games s1 rid = Some g" "\<not> finished g"
    "username b \<notin> set (map username (players g))" "g1 = g\<lparr>players := players g @ [b]\<rparr>"
    by (rule join_game_room)
  with room have "g1 = g0\<lparr>players := [a, b]\<rparr>" "username a \<noteq> username b"
    by auto
  with room(1) show ?case
    by (simp add: paired_inv_def board_3x3_def mark_count_empty)
next
  case (played g u r c st g')
  then show ?case using paired_inv_move by blast
qed

lemma reachable_play: "reachable g \<Longrightarrow> play g ms = Some g' \<Longrightarrow> reachable g'"
proof (induction ms arbitrary: g)
  case Nil
  then show ?case by simp
next
  case (Cons m ms)
  obtain u r c where m: "m = (u, r, c)" by (cases m)
  with Cons.prems(2) obtain st g1 where "make_move g u r c = (Inr st, g1)"
    "play g1 ms = Some g'"
    by (auto split: prod.splits sum.splits)
  with Cons.IH Cons.prems(1) show ?case
    using reachable.moved by blast
qed

lemma paired_play: "paired g \<Longrightarrow> play g ms = Some g' \<Longrightarrow> paired g'"
proof (induction ms arbitrary: g)
  case Nil
  then show ?case by simp
next
  case (Cons m ms)
  obtain u r c where m: "m = (u, r, c)" by (cases m)
  with Cons.prems(2) obtain st g1 where "make_move g u r c = (Inr st, g1)"
    "play g1 ms = Some g'"
    by (auto split: prod.splits sum.splits)
  with Cons.IH Cons.prems(1) show ?case
    using paired.played by blast
qed

lemma reachable_opened: "reachable opened_room"
  using create_opened by (rule reachable.created)

lemma reachable_seated: "reachable seated_room"
  using reachable_opened _ join_seated by (rule reachable.joined) (simp add: get_game_def)

lemma paired_seated: "paired seated_room"
  using create_opened join_seated by (rule paired.seated)

lemma reachable_top_row_won: "reachable top_row_won"
  using reachable_play [OF reachable_seated play_top_row] move_top_row
  by (rule reachable.moved)

lemma paired_top_row_won: "paired top_row_won"
  using paired_play [OF paired_seated play_top_row] move_top_row
  by (rule paired.played)

lemma reachable_solo: "reachable solo_room"
  using reachable_opened play_solo by (rule reachable_play)

text \<open>
  Claim C5, as amended. In every room reachable through \<^verbatim>\<open>create_game\<close>, \<^verbatim>\<open>join_game\<close>
  and accepted moves, the board never holds more \<^verbatim>\<open>"O"\<close> than \<^verbatim>\<open>"X"\<close>; and when the
  second participant joined before the first move, the two counts differ by at most 1.
\<close>

theorem mark_counts_balance:
  "(reachable g \<longrightarrow> mark_count (board g) ''O'' \<le> mark_count (board g) ''X'')
   \<and> (paired g \<longrightarrow> mark_count (board g) ''O'' \<le> mark_count (board g) ''X''
         \<and> mark_count (board g) ''X'' \<le> mark_count (board g) ''O'' + 1)"
proof (intro conjI impI)
  assume "reachable g"
  then have "turn_inv g" by (rule reachable_turn_inv)
  then show "mark_count (board g) ''O'' \<le> mark_count (board g) ''X''"
    by (simp add: turn_inv_def)
next
  assume "paired g"
  then have "paired_inv g" by (rule paired_paired_inv)
  then show "mark_count (board g) ''O'' \<le> mark_count (board g) ''X''"
    and "mark_count (board g) ''X'' \<le> mark_count (board g) ''O'' + 1"
    by (auto simp: paired_inv_def)
qed

theorem mark_counts_balance_witness:
  "reachable top_row_won \<and> paired top_row_won
   \<and> mark_count (board top_row_won) ''O'' \<le> mark_count (board top_row_won) ''X''
   \<and> mark_count (board top_row_won) ''X'' \<le> mark_count (board top_row_won) ''O'' + 1"
  using mark_counts_balance [of top_row_won] reachable_top_row_won paired_top_row_won
  by simp

text \<open>
  Claim C5 as stated fails while a room has one participant: the turn stays with that
  participant, whose mark is \<^verbatim>\<open>"X"\<close>, so two accepted moves leave two \<^verbatim>\<open>"X"\<close> and no
  \<^verbatim>\<open>"O"\<close>.
\<close>

theorem solo_marks_unbalanced:
  "reachable solo_room \<and> mark_count (board solo_room) ''X'' = 2
   \<and> mark_count (board solo_room) ''O'' = 0
   \<and> \<not> mark_count (board solo_room) ''X'' \<le> mark_count (board solo_room) ''O'' + 1"
  by (simp add: reachable_solo) (simp add: solo_room_def mark_count_def)

text \<open>
  Claim C1: the winner of a room, when present, is the user name of one of its
  participants. The code does otherwise. In the game of the specification's test
  (A (0,0), B (1,1), A (0,1), B (2,2), A (0,2)) the room is reachable, its participants
  are \<open>alice\<close> and \<open>bob\<close>, and the winner recorded is the symbol \<^verbatim>\<open>"X"\<close>.
\<close>

theorem winner_is_mark_symbol:
  "reachable top_row_won \<and> winner top_row_won = Some ''X''
   \<and> map username (players top_row_won) = [''alice'', ''bob'']"
  by (simp add: reachable_top_row_won)
     (simp add: top_row_won_def top_row_pending_def alice_def bob_def)


section \<open>Lines on reachable boards\<close>

lemma scan_in_range: "ln \<in> set scan_order \<Longrightarrow> p \<in> set ln \<Longrightarrow> fst p < 3 \<and> snd p < 3"
  by (auto simp: scan_order_def)

lemma line_holds_placed:
  assumes b: "board_3x3 (board g)" and ln: "ln \<in> set scan_order"
    and h: "line_holds (placed g u r c) m ln"
  shows "line_holds (board g) m ln \<or> m = mover_mark g u"
proof (cases "(nat r, nat c) \<in> set ln")
  case True
  have rng: "fst p < length (board g) \<and> snd p < length (board g ! fst p)" if "p \<in> set ln" for p
    using scan_in_range [OF ln that] b by (auto simp: board_3x3_def list_all_length)
  from True h have "cell (placed g u r c) (nat r, nat c) = m"
    by (simp add: line_holds_def list_all_iff)
  moreover have "cell (placed g u r c) (nat r, nat c) = mover_mark g u"
    using rng [OF True] by (simp add: cell_def placed_nth)
  ultimately show ?thesis by simp
next
  case False
  have "cell (placed g u r c) p = cell (board g) p" if "p \<in> set ln" for p
  proof -
    from scan_in_range [OF ln that] b
    have "fst p < length (board g)" "snd p < length (board g ! fst p)"
      by (auto simp: board_3x3_def list_all_length)
    moreover from that False have "p \<noteq> (nat r, nat c)" by blast
    then have "\<not> (fst p = nat r \<and> snd p = nat c)"
      by (simp add: prod_eq_iff)
    ultimately show ?thesis by (auto simp: cell_def placed_nth)
  qed
  with h show ?thesis
    by (simp add: line_holds_def list_all_iff)
qed

lemma has_line_placed:
  assumes "board_3x3 (board g)" "has_line (placed g u r c) m"
  shows "has_line (board g) m \<or> m = mover_mark g u"
proof -
  from assms(2) obtain ln where "ln \<in> set scan_order" "line_holds (placed g u r c) m ln"
    by (auto simp: has_line_iff)
  with assms(1) have "line_holds (board g) m ln \<or> m = mover_mark g u"
    by (rule line_holds_placed)
  with \<open>ln \<in> set scan_order\<close> show ?thesis
    by (auto simp: has_line_iff)
qed

lemma no_line_empty:
  "\<not> has_line [['''', '''', ''''], ['''', '''', ''''], ['''', '''', '''']] m"
  by (auto simp: has_line_def scan_order_def line_holds_def cell_def)

lemma line_inv_move:
  assumes "turn_inv g" "line_inv g" "make_move g u r c = (Inr st, g')"
  shows "line_inv g'"
proof -
  from assms(3) obtain w fin where
    nf: "\<not> finished g"
    and cw: "check_winner (placed g u r c) = Inr (w, fin)"
    and g': "g' = (if fin then (marked g u r c)\<lparr>finished := True, winner := w\<rparr>
           else (marked g u r c)\<lparr>next_turn := other_turn g u, winner := None\<rparr>)"
    by (rule make_move_accepted)
  from g' nf have b': "board g' = placed g u r c" and f: "finished g' = fin"
    by (simp_all add: marked_def)
  from assms(1) have b: "board_3x3 (board g)" by (simp add: turn_inv_def)
  from assms(2) nf have none: "\<not> has_line (board g) m" for m
    by (simp add: line_inv_def)
  have only: "m = mover_mark g u" if "has_line (placed g u r c) m" for m
    using has_line_placed [OF b that] none by simp
  have shape: "board_3x3 (placed g u r c)"
    unfolding placed_def using b by (rule board_3x3_place)
  have open_board: "\<not> has_line (placed g u r c) m" if "\<not> fin" for m
  proof (cases w)
    case None
    with cw have "check_winner (placed g u r c) = Inr (None, fin)" by simp
    then show ?thesis using draw_iff [OF shape] by blast
  next
    case (Some m0)
    with cw have "fin" using winner_sound [OF shape] by blast
    with that show ?thesis by simp
  qed
  show ?thesis
    unfolding line_inv_def b' f
  proof (intro conjI impI allI)
    fix m assume "\<not> fin"
    then show "\<not> has_line (placed g u r c) m" by (rule open_board)
  next
    fix m m' assume "has_line (placed g u r c) m \<and> has_line (placed g u r c) m'"
    then have "m = mover_mark g u" "m' = mover_mark g u"
      using only by blast+
    then show "m = m'" by simp
  qed
qed

lemma reachable_line_inv: "reachable g \<Longrightarrow> line_inv g"
proof (induction rule: reachable.induct)
  case (created s rid user g s')
  show ?case
    unfolding create_game_room(1) [OF created]
    by (simp add: line_inv_def no_line_empty)
next
  case (joined g s rid p g' s')
  from joined.hyps(3) obtain g0 where "games s rid = Some g0"
    "g' = g0\<lparr>players := players g0 @ [p]\<rparr>"
    by (rule join_game_room)
  with joined.hyps(2) have "g' = g\<lparr>players := players g @ [p]\<rparr>"
    by (simp add: get_game_def)
  with joined.IH show ?case
    by (simp add: line_inv_def)
next
  case (moved g u r c st g')
  then show ?case using line_inv_move reachable_turn_inv by blast
qed

lemma reachable_one_winner:
  assumes "reachable g" "has_line (board g) m" "has_line (board g) m'"
  shows "m = m'"
  using reachable_line_inv [OF assms(1)] assms(2,3) by (auto simp: line_inv_def)

text \<open>
  Claim C6, as amended. On every 3x3 board: the mark that \<^verbatim>\<open>check_winner\<close> reports as
  winner holds one of the eight lines in all three cells; a win is reported exactly when
  some mark holds a line; the win is for the mark \<open>m\<close> whenever \<open>m\<close> is the only mark that
  holds a line; on the board of every room reachable through \<^verbatim>\<open>create_game\<close>,
  \<^verbatim>\<open>join_game\<close> and accepted moves, a win for \<open>m\<close> is reported exactly when \<open>m\<close> holds a
  line; a draw is reported exactly when no mark holds a line and every cell is occupied;
  and in progress exactly when no mark holds a line and some cell is empty.
\<close>

theorem check_winner_evaluates:
  assumes "board_3x3 b"
  shows "(\<forall>m. check_winner b = Inr (Some m, True) \<longrightarrow> has_line b m)
       \<and> ((\<exists>m. check_winner b = Inr (Some m, True)) \<longleftrightarrow> (\<exists>m. has_line b m))
       \<and> (\<forall>m. has_line b m \<and> (\<forall>m'. has_line b m' \<longrightarrow> m' = m)
             \<longrightarrow> check_winner b = Inr (Some m, True))
       \<and> (\<forall>g m. reachable g \<and> board g = b
             \<longrightarrow> (check_winner b = Inr (Some m, True) \<longleftrightarrow> has_line b m))
       \<and> (check_winner b = Inr (None, True) \<longleftrightarrow> (\<forall>m. \<not> has_line b m) \<and> board_full b)
       \<and> (check_winner b = Inr (None, False) \<longleftrightarrow> (\<forall>m. \<not> has_line b m) \<and> \<not> board_full b)"
proof (intro conjI allI impI)
  fix m assume "check_winner b = Inr (Some m, True)"
  with assms show "has_line b m" using winner_sound by blast
next
  show "(\<exists>m. check_winner b = Inr (Some m, True)) \<longleftrightarrow> (\<exists>m. has_line b m)"
    using assms winner_sound winner_exists by blast
next
  fix m assume m: "has_line b m \<and> (\<forall>m'. has_line b m' \<longrightarrow> m' = m)"
  then obtain m' where m': "check_winner b = Inr (Some m', True)"
    using assms winner_exists by blast
  with assms have "has_line b m'" using winner_sound by blast
  with m have "m' = m" by blast
  with m' show "check_winner b = Inr (Some m, True)" by simp
next
  fix g m assume g: "reachable g \<and> board g = b"
  show "check_winner b = Inr (Some m, True) \<longleftrightarrow> has_line b m"
  proof
    assume "check_winner b = Inr (Some m, True)"
    with assms show "has_line b m" using winner_sound by blast
  next
    assume h: "has_line b m"
    then obtain m' where m': "check_winner b = Inr (Some m', True)"
      using assms winner_exists by blast
    with assms have "has_line b m'" using winner_sound by blast
    with g h have "m' = m" using reachable_one_winner by blast
    with m' show "check_winner b = Inr (Some m, True)" by simp
  qed
next
  show "check_winner b = Inr (None, True) \<longleftrightarrow> (\<forall>m. \<not> has_line b m) \<and> board_full b"
    using assms by (simp add: draw_iff)
next
  show "check_winner b = Inr (None, False) \<longleftrightarrow> (\<forall>m. \<not> has_line b m) \<and> \<not> board_full b"
    using assms by (simp add: draw_iff)
qed

theorem check_winner_evaluates_witness:
  "board_3x3 (board top_row_won) \<and> reachable top_row_won
   \<and> check_winner (board top_row_won) = Inr (Some ''X'', True)
   \<and> has_line (board top_row_won) ''X''
   \<and> \<not> has_line (board top_row_won) ''O''"
proof -
  note t = check_winner_evaluates [OF board_3x3_top_row_won]
  from t check_winner_top_row_won
  have x: "has_line (board top_row_won) ''X''" by blast
  from t reachable_top_row_won
  have "check_winner (board top_row_won) = Inr (Some ''O'', True)
      \<longleftrightarrow> has_line (board top_row_won) ''O''" by blast
  with check_winner_top_row_won
  have "\<not> has_line (board top_row_won) ''O''" by simp
  with x board_3x3_top_row_won reachable_top_row_won check_winner_top_row_won
  show ?thesis by simp
qed

text \<open>
  Claim C6 as stated fails where two different marks each hold a line: the second row of
  this board holds \<^verbatim>\<open>"O"\<close> in all three cells, and the win reported is the one for
  \<^verbatim>\<open>"X"\<close>.
\<close>

theorem second_line_not_reported:
  "board_3x3 both_win \<and> has_line both_win ''O''
   \<and> check_winner both_win = Inr (Some ''X'', True)
   \<and> check_winner both_win \<noteq> Inr (Some ''O'', True)"
  by (simp add: cw_both board_3x3_both_win)
     (simp add: both_win_def has_line_def scan_order_def line_holds_def cell_def)

end
